theory Spec2Isabelle
  imports Main
begin

section \<open>The symbol model\<close>

text \<open>
  The engine of \<^verbatim>\<open>parsing/lrparser.py\<close> works on symbol instances, on the descriptors
  (\<^verbatim>\<open>SymbolSpec\<close>) a compiled specification registers for their classes, and on the
  actions and productions of that specification. Their classes are declared in other
  modules; the model keeps of each what \<^verbatim>\<open>lrparser.py\<close> reads.

  A symbol instance is its class and the semantic value it carries, if any: a freshly
  constructed instance (\<^verbatim>\<open>Epsilon(self)\<close>, \<^verbatim>\<open>EndOfInput(self)\<close>,
  \<^verbatim>\<open>production.lhs.nontermType(self)\<close>) carries none. Symbols are values here, and
  \<^verbatim>\<open>==\<close> on them is equality of values; the one comparison the engine makes, in
  \<^verbatim>\<open>eoi\<close>, is between a symbol and the stack entry the shift has just made of it.
\<close>

datatype symtype = EndOfInput | Epsilon | Class string

datatype 'v symbol = Symbol (symType: symtype) (payload: "'v option")

datatype symspec = SymbolSpec (name: string) (nontermType: symtype)

text \<open>
  A semantic handler (\<^verbatim>\<open>production.method\<close>) receives the placeholder and the
  right-hand-side symbols. It may raise, it may assign to the placeholder, and it returns a
  symbol or \<^verbatim>\<open>None\<close>: the model's handler gives the exception it raised, or the
  placeholder as the handler left it together with the value it returned.
\<close>

type_synonym 'v handler = "'v symbol \<Rightarrow> 'v symbol list \<Rightarrow> string + 'v symbol \<times> 'v symbol option"

datatype 'v production =
  Production (lhs: symspec) (rhs: "symspec list") (prod_method: "'v handler")

datatype 'v action =
  ShiftAction (nextState: int)
| ReduceAction (reduce_production: "'v production")

text \<open>
  What a call can raise: \<^verbatim>\<open>UnexpectedToken\<close> with its message, a failed
  \<^verbatim>\<open>assert\<close>, an index out of the range of the stack, a failing subscript of one of
  the specification's tables, and whatever a semantic handler raises.
\<close>

datatype error =
  UnexpectedToken string
| AssertionError
| IndexError
| LookupError
| HandlerError string

section \<open>The compiled specification and the parser instance\<close>

text \<open>
  \<^verbatim>\<open>Spec\<close> is consumed read-only. Its tables are subscripted by a state and then by a
  descriptor; a subscript that raises is \<open>None\<close> in the outer position, a descriptor
  that is not a key of the row is \<open>None\<close> in the inner one. The two last fields stand
  for the \<^verbatim>\<open>__repr__\<close> of the symbol classes and of the actions, which
  \<^verbatim>\<open>%r\<close> calls.
\<close>

record 'v spec =
  pureLR :: bool
  nConflicts :: int
  sym2spec :: "symtype \<rightharpoonup> symspec"
  action :: "int \<Rightarrow> (symspec \<rightharpoonup> 'v action list) option"
  goto :: "int \<Rightarrow> (symspec \<rightharpoonup> int) option"
  userStartSym :: symspec
  repr_symbol :: "'v symbol \<Rightarrow> string"
  repr_action :: "'v action \<Rightarrow> string"

text \<open>
  The instance: the fields of \<^verbatim>\<open>Lr\<close>, and the text printed so far (\<open>out\<close>). The
  stack is a Python list: its top is its last element.
\<close>

record 'v lr =
  spec :: "'v spec"
  start :: "'v symbol list option"
  stack :: "('v symbol \<times> int) list"
  verbose :: bool
  out :: string

text \<open>A call returns, or raises and leaves the instance as it was at the raise.\<close>

datatype 'v outcome =
  Return (after: "'v lr")
| Raise (raised: error) (after: "'v lr")

section \<open>Printing\<close>

fun digits :: "nat \<Rightarrow> string" where
  "digits n =
     (if n < 10 then [char_of (48 + n)]
      else digits (n div 10) @ [char_of (48 + n mod 10)])"

declare digits.simps [simp del]

definition repr_int :: "int \<Rightarrow> string" where
  "repr_int i = (if i < 0 then CHR ''-'' # digits (nat (- i)) else digits (nat i))"

definition print :: "string \<Rightarrow> 'v lr \<Rightarrow> 'v lr" where
  "print s st = st\<lparr>out := out st @ s\<rparr>"

definition printStack :: "'v lr \<Rightarrow> 'v lr" where
  "printStack st =
     (let r = repr_symbol (spec st) in
      print (''STACK: '' @ concat (map (\<lambda>node. r (fst node) @ '' '') (stack st)) @ [CHR 0x0A]
             @ ''       ''
             @ concat (map (\<lambda>node. repr_int (snd node)
                             @ replicate (length (r (fst node)) - length (repr_int (snd node))) CHR '' ''
                             @ '' '') (stack st))
             @ [CHR 0x0A]) st)"

section \<open>Construction, reset and the verbosity toggle\<close>

definition reset :: "'v lr \<Rightarrow> 'v lr" where
  "reset st = st\<lparr>start := None, stack := [(Symbol Epsilon None, 0)]\<rparr>"

text \<open>
  \<^verbatim>\<open>__init__\<close>; \<open>exact\<close> says whether the instance's class is \<^verbatim>\<open>Lr\<close> itself
  (\<^verbatim>\<open>type(self) == Lr\<close>). Assertions are enabled, as they are by default.
\<close>

definition init :: "bool \<Rightarrow> 'v spec \<Rightarrow> error + 'v lr" where
  "init exact s =
     (if exact \<and> \<not> pureLR s then Inl AssertionError
      else if nConflicts s \<noteq> 0 then Inl AssertionError
      else Inr ((reset \<lparr>spec = s, start = None, stack = [], verbose = False, out = []\<rparr>)
                  \<lparr>verbose := False\<rparr>))"

definition setVerbose :: "bool \<Rightarrow> 'v lr \<Rightarrow> 'v lr" where
  "setVerbose b st = st\<lparr>verbose := b\<rparr>"

section \<open>Reduction\<close>

definition production :: "'v production \<Rightarrow> 'v symbol list \<Rightarrow> error + 'v symbol" where
  "production p syms =
     (let symb = Symbol (nontermType (lhs p)) None;
          nRhs = length syms
      in if nRhs \<noteq> length (rhs p) then Inl AssertionError
         else case prod_method p symb syms of
                Inl exn \<Rightarrow> Inl (HandlerError exn)
              | Inr (sym', r) \<Rightarrow> Inr (case r of None \<Rightarrow> sym' | Some r' \<Rightarrow> r'))"

text \<open>
  \<^verbatim>\<open>xs[i]\<close> on a Python list: an index from \<open>- len\<close> up to \<open>-1\<close> is taken from
  the end, and one outside \<open>- len .. len - 1\<close> raises.
\<close>

definition getitem :: "'a list \<Rightarrow> int \<Rightarrow> error + 'a" where
  "getitem xs i =
     (if i < - int (length xs) \<or> int (length xs) \<le> i then Inl IndexError
      else if i < 0 then Inr (xs ! nat (int (length xs) + i))
      else Inr (xs ! nat i))"

fun collect_rhs :: "('v symbol \<times> int) list \<Rightarrow> int list \<Rightarrow> error + 'v symbol list" where
  "collect_rhs stk [] = Inr []"
| "collect_rhs stk (i # is) =
     (case getitem stk i of
        Inl e \<Rightarrow> Inl e
      | Inr node \<Rightarrow>
          (case collect_rhs stk is of
             Inl e \<Rightarrow> Inl e
           | Inr syms \<Rightarrow> Inr (fst node # syms)))"

text \<open>
  \<^verbatim>\<open>_reduce\<close> reads the symbols of the top \<open>nRhs\<close> entries by index (an index below
  zero wraps, as Python's does), has \<^verbatim>\<open>_production\<close> call the handler, and only then
  pops: \<^verbatim>\<open>for i in range(nRhs): self._stack.pop()\<close>, with the stack left as it is at
  a failing pop.
\<close>

fun pop_n :: "nat \<Rightarrow> 'a list \<Rightarrow> error option \<times> 'a list" where
  "pop_n 0 xs = (None, xs)"
| "pop_n (Suc k) xs = (if xs = [] then (Some IndexError, xs) else pop_n k (butlast xs))"

definition reduce :: "'v lr \<Rightarrow> 'v production \<Rightarrow> 'v outcome" where
  "reduce st p =
     (let nRhs = length (rhs p);
          n = length (stack st)
      in case collect_rhs (stack st) [int n - int nRhs .. int n - 1] of
           Inl e \<Rightarrow> Raise e st
         | Inr syms \<Rightarrow>
             (case production p syms of
                Inl e \<Rightarrow> Raise e st
              | Inr r \<Rightarrow>
                  (case pop_n nRhs (stack st) of
                     (Some e, stk) \<Rightarrow> Raise e (st\<lparr>stack := stk\<rparr>)
                   | (None, stk) \<Rightarrow>
                       (if stk = [] then Raise IndexError (st\<lparr>stack := stk\<rparr>)
                        else (let top = last stk
                              in (case goto (spec st) (snd top) of
                                    None \<Rightarrow> Raise LookupError (st\<lparr>stack := stk\<rparr>)
                                  | Some row \<Rightarrow>
                                      (case row (lhs p) of
                                         None \<Rightarrow> Raise LookupError (st\<lparr>stack := stk\<rparr>)
                                       | Some g \<Rightarrow>
                                           Return (st\<lparr>stack := stk @ [(r, g)]\<rparr>))))))))"

section \<open>The decision loop\<close>

text \<open>
  The head of the body of \<^verbatim>\<open>while True\<close> in \<^verbatim>\<open>_act\<close>: the entry on top of the
  stack, the membership test on the action row of its state, and the single action
  expected there.
\<close>

definition lookup_action :: "'v lr \<Rightarrow> 'v symbol \<Rightarrow> symspec \<Rightarrow> error + 'v action" where
  "lookup_action st symb symSpec =
     (if stack st = [] then Inl IndexError
      else (let top = last (stack st)
            in (case action (spec st) (snd top) of
                  None \<Rightarrow> Inl LookupError
                | Some row \<Rightarrow>
                    (case row symSpec of
                       None \<Rightarrow>
                         Inl (UnexpectedToken
                                (''Unexpected token: '' @ repr_symbol (spec st) symb))
                     | Some actions \<Rightarrow>
                         (if length actions \<noteq> 1 then Inl AssertionError
                          else Inr (hd actions))))))"

text \<open>What the loop prints about the action it has found.\<close>

definition act_chosen :: "'v lr \<Rightarrow> 'v action \<Rightarrow> 'v lr" where
  "act_chosen st a =
     (if verbose st then print (''   --> '' @ repr_action (spec st) a @ [CHR 0x0A]) st
      else st)"

text \<open>
  One pass through the body: it leaves the loop (a shift, or a raise), or it has reduced
  and goes round again.
\<close>

datatype 'v iteration = Exit "'v outcome" | Continue "'v lr"

definition act_iter :: "'v lr \<Rightarrow> 'v symbol \<Rightarrow> symspec \<Rightarrow> 'v iteration" where
  "act_iter st symb symSpec =
     (case lookup_action st symb symSpec of
        Inl e \<Rightarrow> Exit (Raise e st)
      | Inr a \<Rightarrow>
          (let st1 = act_chosen st a
           in (case a of
                 ShiftAction q \<Rightarrow> Exit (Return (st1\<lparr>stack := stack st1 @ [(symb, q)]\<rparr>))
               | ReduceAction p \<Rightarrow>
                   (case reduce st1 p of
                      Raise e st2 \<Rightarrow> Exit (Raise e st2)
                    | Return st2 \<Rightarrow>
                        Continue (if verbose st2 then printStack st2 else st2)))))"

text \<open>The loop may run forever on a malformed table; not returning is \<open>None\<close>.\<close>

partial_function (option) act_loop :: "'v lr \<Rightarrow> 'v symbol \<Rightarrow> symspec \<Rightarrow> 'v outcome option" where
  "act_loop st symb symSpec =
     (case act_iter st symb symSpec of
        Exit r \<Rightarrow> Some r
      | Continue st' \<Rightarrow> act_loop st' symb symSpec)"

declare act_loop.simps [code]

text \<open>What \<^verbatim>\<open>_act\<close> prints before it enters the loop.\<close>

definition act_input :: "'v lr \<Rightarrow> 'v symbol \<Rightarrow> 'v lr" where
  "act_input st symb =
     (if verbose st
      then print (''INPUT: '' @ repr_symbol (spec st) symb @ [CHR 0x0A]) (printStack st)
      else st)"

definition act :: "'v lr \<Rightarrow> 'v symbol \<Rightarrow> symspec \<Rightarrow> 'v outcome option" where
  "act st symb symSpec = act_loop (act_input st symb) symb symSpec"

definition token :: "'v lr \<Rightarrow> 'v symbol \<Rightarrow> 'v outcome option" where
  "token st tok =
     (case sym2spec (spec st) (symType tok) of
        None \<Rightarrow> Some (Raise LookupError st)
      | Some tokenSpec \<Rightarrow> act st tok tokenSpec)"

definition eoi :: "'v lr \<Rightarrow> 'v outcome option" where
  "eoi st =
     (let tok = Symbol EndOfInput None
      in case token st tok of
           None \<Rightarrow> None
         | Some (Raise e st1) \<Rightarrow> Some (Raise e st1)
         | Some (Return st1) \<Rightarrow>
             Some (if stack st1 = [] then Raise IndexError st1
                   else if fst (last (stack st1)) \<noteq> tok then Raise AssertionError st1
                   else (let st2 = (if verbose st1
                                    then print (''   --> accept'' @ [CHR 0x0A]) (printStack st1)
                                    else st1);
                             st3 = st2\<lparr>stack := butlast (stack st2)\<rparr>
                         in (case getitem (stack st3) 1 of
                               Inl e \<Rightarrow> Raise e st3
                             | Inr node \<Rightarrow>
                                 (let st4 = st3\<lparr>start := Some [fst node]\<rparr>
                                  in (case sym2spec (spec st4) (symType (fst node)) of
                                        None \<Rightarrow> Raise LookupError st4
                                      | Some d \<Rightarrow>
                                          (if d \<noteq> userStartSym (spec st4)
                                           then Raise AssertionError st4
                                           else Return st4)))))))"

section \<open>A compiled specification to run the engine on\<close>

text \<open>
  The grammar \<^verbatim>\<open>E -> E '+' T | T\<close>, \<^verbatim>\<open>T -> number\<close>, with the tables of its LR
  automaton: state 0 is initial, state 1 follows \<^verbatim>\<open>E\<close> (and shifts the end of input
  into state 4), 2 follows \<^verbatim>\<open>T\<close>, 3 a number, 5 the plus sign and 6 the
  \<^verbatim>\<open>T\<close> after it. Semantic values are integers. The handler of
  \<^verbatim>\<open>T -> number\<close> returns a symbol; the two others assign to the placeholder and
  return nothing.
\<close>

definition number_d :: symspec where "number_d = SymbolSpec ''number'' (Class ''Number'')"
definition plus_d :: symspec where "plus_d = SymbolSpec ''plus'' (Class ''Plus'')"
definition eoi_d :: symspec where "eoi_d = SymbolSpec ''<$>'' EndOfInput"
definition epsilon_d :: symspec where "epsilon_d = SymbolSpec ''<e>'' Epsilon"
definition E_d :: symspec where "E_d = SymbolSpec ''E'' (Class ''E'')"
definition T_d :: symspec where "T_d = SymbolSpec ''T'' (Class ''T'')"

definition reduceT :: "int handler" where
  "reduceT symb syms =
     (case syms of
        [n] \<Rightarrow> Inr (symb, Some (Symbol (Class ''T'') (payload n)))
      | _ \<Rightarrow> Inl ''TypeError'')"

definition reduceE :: "int handler" where
  "reduceE symb syms =
     (case syms of
        [t] \<Rightarrow> Inr (Symbol (symType symb) (payload t), None)
      | _ \<Rightarrow> Inl ''TypeError'')"

definition reduceAdd :: "int handler" where
  "reduceAdd symb syms =
     (case syms of
        [e, _, t] \<Rightarrow>
          Inr (Symbol (symType symb)
                 (Some ((case payload e of None \<Rightarrow> 0 | Some x \<Rightarrow> x)
                        + (case payload t of None \<Rightarrow> 0 | Some y \<Rightarrow> y))), None)
      | _ \<Rightarrow> Inl ''TypeError'')"

definition pT :: "int production" where "pT = Production T_d [number_d] reduceT"
definition pE :: "int production" where "pE = Production E_d [T_d] reduceE"
definition pAdd :: "int production" where "pAdd = Production E_d [E_d, plus_d, T_d] reduceAdd"

definition expr_action :: "int \<Rightarrow> (symspec \<rightharpoonup> int action list) option" where
  "expr_action s =
     (if s = 0 then Some [number_d \<mapsto> [ShiftAction 3]]
      else if s = 1 then Some [eoi_d \<mapsto> [ShiftAction 4], plus_d \<mapsto> [ShiftAction 5]]
      else if s = 2 then Some [plus_d \<mapsto> [ReduceAction pE], eoi_d \<mapsto> [ReduceAction pE]]
      else if s = 3 then Some [plus_d \<mapsto> [ReduceAction pT], eoi_d \<mapsto> [ReduceAction pT]]
      else if s = 4 then Some Map.empty
      else if s = 5 then Some [number_d \<mapsto> [ShiftAction 3]]
      else if s = 6 then Some [plus_d \<mapsto> [ReduceAction pAdd], eoi_d \<mapsto> [ReduceAction pAdd]]
      else None)"

definition expr_goto :: "int \<Rightarrow> (symspec \<rightharpoonup> int) option" where
  "expr_goto s =
     (if s = 0 then Some [E_d \<mapsto> 1, T_d \<mapsto> 2]
      else if s = 5 then Some [T_d \<mapsto> 6]
      else if 0 \<le> s \<and> s \<le> 6 then Some Map.empty
      else None)"

definition expr_repr :: "int symbol \<Rightarrow> string" where
  "expr_repr s =
     (case symType s of
        EndOfInput \<Rightarrow> ''<$>''
      | Epsilon \<Rightarrow> ''<e>''
      | Class c \<Rightarrow> c)"

definition expr_spec :: "int spec" where
  "expr_spec =
     \<lparr>pureLR = True, nConflicts = 0,
      sym2spec = [EndOfInput \<mapsto> eoi_d, Epsilon \<mapsto> epsilon_d, Class ''Number'' \<mapsto> number_d,
                  Class ''Plus'' \<mapsto> plus_d, Class ''E'' \<mapsto> E_d, Class ''T'' \<mapsto> T_d],
      action = expr_action, goto = expr_goto, userStartSym = E_d,
      repr_symbol = expr_repr,
      repr_action = (\<lambda>a. case a of ShiftAction q \<Rightarrow> ''[shift]'' | ReduceAction p \<Rightarrow> ''[reduce]'')\<rparr>"

definition num :: "int \<Rightarrow> int symbol" where "num v = Symbol (Class ''Number'') (Some v)"
definition plus :: "int symbol" where "plus = Symbol (Class ''Plus'') None"

text \<open>A fresh parser on this specification.\<close>

definition expr_lr :: "int lr" where
  "expr_lr = \<lparr>spec = expr_spec, start = None, stack = [(Symbol Epsilon None, 0)],
              verbose = False, out = []\<rparr>"

text \<open>States of that parser in the middle of a parse.\<close>

definition after_number :: "int lr" where
  "after_number = expr_lr\<lparr>stack := [(Symbol Epsilon None, 0), (num 3, 3)]\<rparr>"

definition after_T :: "int lr" where
  "after_T = expr_lr\<lparr>stack := [(Symbol Epsilon None, 0), (Symbol (Class ''T'') (Some 3), 2)]\<rparr>"

definition after_E :: "int lr" where
  "after_E = expr_lr\<lparr>stack := [(Symbol Epsilon None, 0), (Symbol (Class ''E'') (Some 3), 1)]\<rparr>"

definition after_plus :: "int lr" where
  "after_plus = expr_lr\<lparr>stack := [(Symbol Epsilon None, 0), (Symbol (Class ''E'') (Some 3), 1),
                                    (plus, 5)]\<rparr>"

text \<open>
  The grammar \<^verbatim>\<open>Opt -> | '!'\<close> with start symbol \<^verbatim>\<open>Opt\<close>. State 1 follows the
  \<^verbatim>\<open>'!'\<close>; its only item is complete, and its row reduces on either terminal, as a
  table with default reductions does. State 2 follows \<^verbatim>\<open>Opt\<close> and shifts the end
  of input into state 3.
\<close>

definition bang_d :: symspec where "bang_d = SymbolSpec ''bang'' (Class ''Bang'')"
definition Opt_d :: symspec where "Opt_d = SymbolSpec ''Opt'' (Class ''Opt'')"

definition reduceEmpty :: "int handler" where
  "reduceEmpty symb syms = (case syms of [] \<Rightarrow> Inr (symb, None) | _ \<Rightarrow> Inl ''TypeError'')"

definition reduceBang :: "int handler" where
  "reduceBang symb syms =
     (case syms of [b] \<Rightarrow> Inr (Symbol (symType symb) (Some 1), None) | _ \<Rightarrow> Inl ''TypeError'')"

definition pEmpty :: "int production" where "pEmpty = Production Opt_d [] reduceEmpty"
definition pBang :: "int production" where "pBang = Production Opt_d [bang_d] reduceBang"

definition opt_action :: "int \<Rightarrow> (symspec \<rightharpoonup> int action list) option" where
  "opt_action s =
     (if s = 0 then Some [bang_d \<mapsto> [ShiftAction 1], eoi_d \<mapsto> [ReduceAction pEmpty]]
      else if s = 1 then Some [bang_d \<mapsto> [ReduceAction pBang], eoi_d \<mapsto> [ReduceAction pBang]]
      else if s = 2 then Some [eoi_d \<mapsto> [ShiftAction 3]]
      else if s = 3 then Some Map.empty
      else None)"

definition opt_goto :: "int \<Rightarrow> (symspec \<rightharpoonup> int) option" where
  "opt_goto s =
     (if s = 0 then Some [Opt_d \<mapsto> 2]
      else if 0 \<le> s \<and> s \<le> 3 then Some Map.empty
      else None)"

definition opt_spec :: "int spec" where
  "opt_spec =
     \<lparr>pureLR = True, nConflicts = 0,
      sym2spec = [EndOfInput \<mapsto> eoi_d, Epsilon \<mapsto> epsilon_d, Class ''Bang'' \<mapsto> bang_d,
                  Class ''Opt'' \<mapsto> Opt_d],
      action = opt_action, goto = opt_goto, userStartSym = Opt_d,
      repr_symbol = expr_repr,
      repr_action = (\<lambda>a. case a of ShiftAction q \<Rightarrow> ''[shift]'' | ReduceAction p \<Rightarrow> ''[reduce]'')\<rparr>"

definition bang :: "int symbol" where "bang = Symbol (Class ''Bang'') None"

definition opt_lr :: "int lr" where
  "opt_lr = \<lparr>spec = opt_spec, start = None, stack = [(Symbol Epsilon None, 0)],
             verbose = False, out = []\<rparr>"

definition opt_after_bang :: "int lr" where
  "opt_after_bang = opt_lr\<lparr>stack := [(Symbol Epsilon None, 0), (bang, 1)]\<rparr>"

definition opt_after_Opt :: "int lr" where
  "opt_after_Opt = opt_lr\<lparr>stack := [(Symbol Epsilon None, 0), (Symbol (Class ''Opt'') (Some 1), 2)]\<rparr>"

section \<open>Points of the decision loop and sequences of calls\<close>

text \<open>
  The instance at the head of the decision loop after \<open>k\<close> completed passes, each of
  them a reduction; there is none when the loop has been left before.
\<close>

fun loop_point :: "nat \<Rightarrow> 'v lr \<Rightarrow> 'v symbol \<Rightarrow> symspec \<Rightarrow> 'v lr option" where
  "loop_point 0 st symb symSpec = Some st"
| "loop_point (Suc k) st symb symSpec =
     (case act_iter st symb symSpec of
        Exit r \<Rightarrow> None
      | Continue st' \<Rightarrow> loop_point k st' symb symSpec)"

text \<open>
  The state of the entry on top of the stack has an action row, and the descriptor is not
  a key of it.
\<close>

definition no_action :: "'v lr \<Rightarrow> symspec \<Rightarrow> bool" where
  "no_action st symSpec =
     (stack st \<noteq> [] \<and>
      (case action (spec st) (snd (last (stack st))) of
         None \<Rightarrow> False
       | Some row \<Rightarrow> row symSpec = None))"


text \<open>
  A caller making any calls in any order, going on after a call has raised: the errors
  raised call by call, and the instance at the end.
\<close>

datatype 'v call = Token "'v symbol" | Eoi | Reset | SetVerbose bool

definition do_call :: "'v lr \<Rightarrow> 'v call \<Rightarrow> 'v outcome option" where
  "do_call st c =
     (case c of
        Token t \<Rightarrow> token st t
      | Eoi \<Rightarrow> eoi st
      | Reset \<Rightarrow> Some (Return (reset st))
      | SetVerbose b \<Rightarrow> Some (Return (setVerbose b st)))"

definition error_of :: "'v outcome \<Rightarrow> error option" where
  "error_of r = (case r of Return st \<Rightarrow> None | Raise e st \<Rightarrow> Some e)"

fun run :: "'v lr \<Rightarrow> 'v call list \<Rightarrow> (error option list \<times> 'v lr) option" where
  "run st [] = Some ([], st)"
| "run st (c # cs) =
     (case do_call st c of
        None \<Rightarrow> None
      | Some r \<Rightarrow>
          (case run (after r) cs of
             None \<Rightarrow> None
           | Some (errs, st') \<Rightarrow> Some (error_of r # errs, st')))"

text \<open>What a caller can see of a run: the errors, the stack and the parse result.\<close>

definition observe ::
  "(error option list \<times> 'v lr) option
     \<Rightarrow> (error option list \<times> ('v symbol \<times> int) list \<times> 'v symbol list option) option" where
  "observe x = map_option (\<lambda>(errs, st). (errs, stack st, start st)) x"

text \<open>
  Two instances that differ at most in the verbose flag and in the text printed so far,
  and two outcomes that are the same up to that.
\<close>

definition agree :: "'v lr \<Rightarrow> 'v lr \<Rightarrow> bool" where
  "agree a b = (spec a = spec b \<and> start a = start b \<and> stack a = stack b)"

fun agree_outcome :: "'v outcome \<Rightarrow> 'v outcome \<Rightarrow> bool" where
  "agree_outcome (Return a) (Return b) = agree a b"
| "agree_outcome (Raise e a) (Raise e' b) = (e = e' \<and> agree a b)"
| "agree_outcome (Return a) (Raise e' b) = False"
| "agree_outcome (Raise e a) (Return b) = False"

fun agree_iteration :: "'v iteration \<Rightarrow> 'v iteration \<Rightarrow> bool" where
  "agree_iteration (Exit r) (Exit r') = agree_outcome r r'"
| "agree_iteration (Continue a) (Continue b) = agree a b"
| "agree_iteration (Exit r) (Continue b) = False"
| "agree_iteration (Continue a) (Exit r') = False"

text \<open>
  The invariant of the stack: it is not empty, and its slot 0 holds the bottom sentinel
  with state 0.
\<close>

definition stack_inv :: "'v lr \<Rightarrow> bool" where
  "stack_inv st = (stack st \<noteq> [] \<and> stack st ! 0 = (Symbol Epsilon None, 0))"

text \<open>
  No reduction that the decision loop undertakes for a symbol has a right-hand side longer
  than the stack is deep above its bottom entry.
\<close>

definition rhs_fit :: "'v lr \<Rightarrow> 'v symbol \<Rightarrow> symspec \<Rightarrow> bool" where
  "rhs_fit st symb symSpec =
     (\<forall>k st' p. loop_point k st symb symSpec = Some st' \<longrightarrow>
        lookup_action st' symb symSpec = Inr (ReduceAction p) \<longrightarrow>
        length (rhs p) < length (stack st'))"







section \<open>The table automaton\<close>

text \<open>
  The classical LR procedure on the tables alone, as the specification words the decision
  loop: a configuration is the sequence of the states on the stack. With a terminal's
  descriptor as input, a single entry \<open>Reduce p\<close> for the state on top replaces the top
  \<open>length (rhs p)\<close> states by the goto state of the state below them and the left-hand
  side, and a single entry \<open>Shift q\<close> pushes \<open>q\<close> and ends the step. The tables accept
  a sentence when the procedure, started on state 0, shifts its terminals one after the
  other and then the end of input.
\<close>

definition single_action :: "'v spec \<Rightarrow> int \<Rightarrow> symspec \<Rightarrow> 'v action option" where
  "single_action S s d =
     (case action S s of
        None \<Rightarrow> None
      | Some row \<Rightarrow> (case row d of Some [a] \<Rightarrow> Some a | _ \<Rightarrow> None))"

definition goto_state :: "'v spec \<Rightarrow> int \<Rightarrow> symspec \<Rightarrow> int option" where
  "goto_state S s d = (case goto S s of None \<Rightarrow> None | Some row \<Rightarrow> row d)"

inductive table_reduce :: "'v spec \<Rightarrow> symspec \<Rightarrow> int list \<Rightarrow> int list \<Rightarrow> bool"
  for S :: "'v spec" and d :: symspec where
  "c \<noteq> [] \<Longrightarrow> single_action S (last c) d = Some (ReduceAction p) \<Longrightarrow>
   length (rhs p) < length c \<Longrightarrow> c0 = take (length c - length (rhs p)) c \<Longrightarrow>
   goto_state S (last c0) (lhs p) = Some g \<Longrightarrow>
   table_reduce S d c (c0 @ [g])"

inductive table_consume :: "'v spec \<Rightarrow> symspec \<Rightarrow> int list \<Rightarrow> int list \<Rightarrow> bool"
  for S :: "'v spec" and d :: symspec where
  consume_shift:
    "c \<noteq> [] \<Longrightarrow> single_action S (last c) d = Some (ShiftAction q) \<Longrightarrow>
     table_consume S d c (c @ [q])"
| consume_reduce:
    "table_reduce S d c c1 \<Longrightarrow> table_consume S d c1 c' \<Longrightarrow> table_consume S d c c'"
















section \<open>Properties of a reduction\<close>

lemma getitem_nat: "i < length xs \<Longrightarrow> getitem xs (int i) = Inr (xs ! i)"
  by (simp add: getitem_def)

lemma collect_rhs_from:
  "i \<le> length stk \<Longrightarrow>
   collect_rhs stk [int i .. int (length stk) - 1] = Inr (map fst (drop i stk))"
proof (induction "length stk - i" arbitrary: i)
  case 0
  then show ?case by simp
next
  case (Suc d)
  then have lt: "i < length stk" by simp
  then have up: "[int i .. int (length stk) - 1] = int i # [1 + int i .. int (length stk) - 1]"
    by (simp add: upto_rec1 add.commute)
  have ih: "collect_rhs stk [1 + int i .. int (length stk) - 1] = Inr (map fst (drop (Suc i) stk))"
    using Suc.hyps(1) [of "Suc i"] Suc.hyps(2) lt by simp
  show ?case
    using lt by (simp add: up ih getitem_nat Cons_nth_drop_Suc [symmetric])
qed

lemma collect_rhs_top:
  "k \<le> length stk \<Longrightarrow>
   collect_rhs stk [int (length stk) - int k .. int (length stk) - 1]
     = Inr (map fst (drop (length stk - k) stk))"
  using collect_rhs_from [of "length stk - k" stk] by (simp add: of_nat_diff)

lemma pop_n_eq:
  "pop_n k xs =
     (if k \<le> length xs then (None, take (length xs - k) xs) else (Some IndexError, []))"
proof (induction k arbitrary: xs)
  case 0
  then show ?case by simp
next
  case (Suc k)
  show ?case
  proof (cases "xs = []")
    case True
    then show ?thesis by simp
  next
    case False
    then have "take (length xs - Suc k) (butlast xs) = take (length xs - Suc k) xs"
      by (simp add: butlast_conv_take)
    moreover from False have "0 < length xs" by simp
    then have "(k \<le> length xs - Suc 0) = (Suc k \<le> length xs)" by arith
    ultimately show ?thesis using False by (simp add: Suc.IH)
  qed
qed

text \<open>
  A reduction returns exactly when the right-hand side is shorter than the stack, the
  handler returns and the goto table has the entry; the stack it leaves is the old one
  without its top \<open>length (rhs p)\<close> entries, with one new entry.
\<close>

lemma reduce_Return_iff:
  "reduce st p = Return st' \<longleftrightarrow>
     length (rhs p) < length (stack st) \<and>
     (\<exists>r row g.
        production p (map fst (drop (length (stack st) - length (rhs p)) (stack st))) = Inr r \<and>
        goto (spec st) (snd (last (take (length (stack st) - length (rhs p)) (stack st))))
          = Some row \<and>
        row (lhs p) = Some g \<and>
        st' = st\<lparr>stack := take (length (stack st) - length (rhs p)) (stack st) @ [(r, g)]\<rparr>)"
proof (cases "length (rhs p) \<le> length (stack st)")
  case True
  then show ?thesis
    by (auto simp: reduce_def Let_def collect_rhs_top pop_n_eq
             split: sum.splits option.splits)
next
  case False
  then show ?thesis
    by (auto simp: reduce_def Let_def pop_n_eq split: sum.splits option.splits)
qed

lemma reduce_after_number: "reduce after_number pT = Return after_T"
  by (simp add: reduce_Return_iff production_def pT_def reduceT_def expr_lr_def expr_spec_def
      expr_goto_def after_number_def after_T_def num_def T_d_def number_d_def E_d_def)

lemma reduce_after_T: "reduce after_T pE = Return after_E"
  by (simp add: reduce_Return_iff production_def pE_def reduceE_def expr_lr_def expr_spec_def
      expr_goto_def after_T_def after_E_def T_d_def E_d_def)

lemma reduce_opt_empty:
  "reduce opt_lr pEmpty = Return (opt_lr\<lparr>stack := [(Symbol Epsilon None, 0), (Symbol (Class ''Opt'') None, 2)]\<rparr>)"
  by (simp add: reduce_Return_iff production_def pEmpty_def reduceEmpty_def opt_lr_def
      opt_spec_def opt_goto_def Opt_d_def)

text \<open>
  C3. A reduction by a production with a right-hand side of length \<open>n\<close> that is carried
  out pops exactly \<open>n\<close> entries and pushes exactly one, so the stack's length changes by
  \<open>1 - n\<close>; the state of the pushed entry is the goto-table entry for the state of the
  entry on top after the pops and the production's left-hand side. With \<open>n = 0\<close> nothing
  is popped, and that entry is the top of the stack before the push.
\<close>

theorem reduce_arity:
  "reduce st p = Return st' \<Longrightarrow>
     length (rhs p) < length (stack st) \<and>
     (\<exists>r g row.
        stack st' = take (length (stack st) - length (rhs p)) (stack st) @ [(r, g)] \<and>
        goto (spec st) (snd (last (take (length (stack st) - length (rhs p)) (stack st))))
          = Some row \<and>
        row (lhs p) = Some g) \<and>
     int (length (stack st')) = int (length (stack st)) + 1 - int (length (rhs p)) \<and>
     (rhs p = [] \<longrightarrow>
        (\<exists>r g row. stack st' = stack st @ [(r, g)] \<and>
           goto (spec st) (snd (last (stack st))) = Some row \<and> row (lhs p) = Some g))"
  by (auto simp: reduce_Return_iff)

theorem reduce_arity_witness:
  "reduce after_number pT = Return after_T \<and>
   length (rhs pT) < length (stack after_number) \<and>
   int (length (stack after_T)) = int (length (stack after_number)) + 1 - int (length (rhs pT)) \<and>
   reduce opt_lr pEmpty
     = Return (opt_lr\<lparr>stack := [(Symbol Epsilon None, 0), (Symbol (Class ''Opt'') None, 2)]\<rparr>) \<and>
   rhs pEmpty = [] \<and>
   (\<exists>r g row. [(Symbol Epsilon None, 0), (Symbol (Class ''Opt'') None, 2)] = stack opt_lr @ [(r, g)] \<and>
      goto (spec opt_lr) (snd (last (stack opt_lr))) = Some row \<and> row (lhs pEmpty) = Some g)"
  using reduce_arity [OF reduce_after_number] reduce_arity [OF reduce_opt_empty]
    reduce_after_number reduce_opt_empty
  by (simp add: pEmpty_def)

text \<open>
  C4. A reduction by a production \<open>p\<close> constructs a fresh placeholder of the class of
  \<open>p\<close>'s left-hand side and calls \<open>p\<close>'s handler with it and the symbols of the popped
  entries, in their order on the stack from the bottom up. The symbol pushed is the value
  the handler returns when it returns one, and the placeholder (as the handler left it)
  when it returns nothing.
\<close>

theorem reduce_handler:
  "reduce st p = Return st' \<Longrightarrow>
     (\<exists>sym' r.
        prod_method p (Symbol (nontermType (lhs p)) None)
                 (map fst (drop (length (stack st) - length (rhs p)) (stack st)))
          = Inr (sym', r) \<and>
        (r = None \<longrightarrow> fst (last (stack st')) = sym') \<and>
        (\<forall>x. r = Some x \<longrightarrow> fst (last (stack st')) = x))"
  by (auto simp: reduce_Return_iff production_def Let_def split: if_splits sum.splits)

theorem reduce_handler_witness:
  "reduce after_number pT = Return after_T \<and>
   prod_method pT (Symbol (nontermType (lhs pT)) None) [num 3]
     = Inr (Symbol (Class ''T'') None, Some (Symbol (Class ''T'') (Some 3))) \<and>
   fst (last (stack after_T)) = Symbol (Class ''T'') (Some 3) \<and>
   reduce after_T pE = Return after_E \<and>
   prod_method pE (Symbol (nontermType (lhs pE)) None) [Symbol (Class ''T'') (Some 3)]
     = Inr (Symbol (Class ''E'') (Some 3), None) \<and>
   fst (last (stack after_E)) = Symbol (Class ''E'') (Some 3)"
  using reduce_handler [OF reduce_after_number] reduce_handler [OF reduce_after_T]
    reduce_after_number reduce_after_T
  by (simp add: pT_def pE_def reduceT_def reduceE_def T_d_def E_d_def num_def
      after_T_def after_E_def)

section \<open>Properties of construction and reset\<close>

text \<open>
  C8. Constructing the engine from a specification whose conflict count is not zero
  fails: the assertion in the constructor raises and no instance results.
\<close>

theorem init_conflicts:
  "nConflicts s \<noteq> 0 \<Longrightarrow> init exact s = Inl AssertionError"
  by (simp add: init_def)

theorem init_conflicts_witness:
  "nConflicts (expr_spec\<lparr>nConflicts := 2\<rparr>) \<noteq> 0 \<and>
   init True (expr_spec\<lparr>nConflicts := 2\<rparr>) = Inl AssertionError"
  using init_conflicts [of "expr_spec\<lparr>nConflicts := 2\<rparr>" True] by simp

lemma init_expr: "init True expr_spec = Inr expr_lr"
  by (simp add: init_def reset_def expr_lr_def expr_spec_def)

text \<open>
  C10. \<^verbatim>\<open>reset()\<close> leaves the verbose flag as it is: it sets the result to none and
  the stack to the single entry of the bottom sentinel in state 0, so a reset after the
  flag was set leaves tracing on. Only the constructor sets the flag to false.
\<close>

theorem reset_keeps_verbose:
  "verbose (reset st) = verbose st \<and>
   start (reset st) = None \<and>
   stack (reset st) = [(Symbol Epsilon None, 0)] \<and>
   verbose (reset (setVerbose True st)) \<and>
   (\<forall>exact s st0. init exact s = Inr st0 \<longrightarrow> \<not> verbose st0)"
  by (auto simp: reset_def setVerbose_def init_def split: if_splits)

theorem reset_keeps_verbose_witness:
  "init True expr_spec = Inr expr_lr \<and> \<not> verbose expr_lr \<and>
   verbose (reset (setVerbose True expr_lr)) \<and>
   stack (reset (setVerbose True expr_lr)) = [(Symbol Epsilon None, 0)]"
  using reset_keeps_verbose [of expr_lr] reset_keeps_verbose [of "setVerbose True expr_lr"]
    init_expr
  by blast

section \<open>Properties of the decision loop\<close>

lemma act_loop_Continue:
  "act_iter st symb symSpec = Continue st' \<Longrightarrow> act_loop st symb symSpec = act_loop st' symb symSpec"
  by (subst act_loop.simps) simp

lemma act_loop_Exit:
  "act_iter st symb symSpec = Exit r \<Longrightarrow> act_loop st symb symSpec = Some r"
  by (subst act_loop.simps) simp

lemma act_loop_loop_point:
  "loop_point k st symb symSpec = Some st' \<Longrightarrow> act_loop st symb symSpec = act_loop st' symb symSpec"
proof (induction k arbitrary: st)
  case 0
  then show ?case by simp
next
  case (Suc k)
  then show ?case
    by (auto split: iteration.splits simp: act_loop_Continue)
qed

lemma lookup_action_unexpected:
  "lookup_action st symb symSpec = Inl (UnexpectedToken m) \<longleftrightarrow>
     no_action st symSpec \<and> m = ''Unexpected token: '' @ repr_symbol (spec st) symb"
  by (auto simp: lookup_action_def no_action_def Let_def split: option.splits if_splits)

lemma collect_rhs_error: "collect_rhs stk js = Inl e \<Longrightarrow> e = IndexError"
  by (induction js arbitrary: e) (auto simp: getitem_def split: sum.splits if_splits)

lemma production_error:
  "production p syms = Inl e \<Longrightarrow> e = AssertionError \<or> (\<exists>x. e = HandlerError x)"
  by (auto simp: production_def Let_def split: if_splits sum.splits)

lemma reduce_Raise_error:
  "reduce st p = Raise e st' \<Longrightarrow> e \<noteq> UnexpectedToken m"
  by (auto simp: reduce_def Let_def pop_n_eq split: sum.splits option.splits if_splits
           dest: collect_rhs_error production_error)

lemma act_iter_unexpected:
  "act_iter st symb symSpec = Exit (Raise (UnexpectedToken m) st') \<longleftrightarrow>
     no_action st symSpec \<and> m = ''Unexpected token: '' @ repr_symbol (spec st) symb \<and> st' = st"
  (is "?L \<longleftrightarrow> ?R")
proof
  assume l: ?L
  show ?R
  proof (cases "lookup_action st symb symSpec")
    case (Inl e)
    with l have "e = UnexpectedToken m" "st' = st" by (simp_all add: act_iter_def)
    with Inl show ?thesis by (simp add: lookup_action_unexpected)
  next
    case (Inr a)
    with l show ?thesis
      by (cases a) (auto simp: act_iter_def Let_def split: outcome.splits dest: reduce_Raise_error)
  qed
next
  assume ?R
  then have "lookup_action st symb symSpec = Inl (UnexpectedToken m)" "st' = st"
    by (simp_all add: lookup_action_unexpected)
  then show ?L by (simp add: act_iter_def)
qed

lemma loop_point_cons:
  "act_iter st symb symSpec = Continue st1 \<Longrightarrow> loop_point k st1 symb symSpec = Some st2
   \<Longrightarrow> loop_point (Suc k) st symb symSpec = Some st2"
  by simp

lemma loop_point_snoc:
  "loop_point k st symb symSpec = Some st1 \<Longrightarrow> act_iter st1 symb symSpec = Continue st2
   \<Longrightarrow> loop_point (Suc k) st symb symSpec = Some st2"
proof (induction k arbitrary: st)
  case 0
  then show ?case by simp
next
  case (Suc k)
  from Suc.prems(1) obtain sta where a: "act_iter st symb symSpec = Continue sta"
    and b: "loop_point k sta symb symSpec = Some st1"
    by (auto split: iteration.splits)
  from Suc.IH [OF b Suc.prems(2)] a show ?case by (rule loop_point_cons [rotated])
qed

lemma act_loop_unexpected_point:
  assumes "act_loop st symb symSpec = Some r"
  shows "\<forall>m st'. r = Raise (UnexpectedToken m) st' \<longrightarrow>
       (\<exists>k. loop_point k st symb symSpec = Some st' \<and> no_action st' symSpec)"
  using assms
proof (induction st symb symSpec r rule: act_loop.raw_induct)
  case (1 f st symb symSpec r)
  show ?case
  proof (cases "act_iter st symb symSpec")
    case (Exit x)
    with 1(2) have "x = r" by simp
    with Exit have "\<And>m st'. r = Raise (UnexpectedToken m) st' \<Longrightarrow>
        loop_point 0 st symb symSpec = Some st' \<and> no_action st' symSpec"
      by (simp add: act_iter_unexpected)
    then show ?thesis by blast
  next
    case (Continue st1)
    with 1(2) have a: "f st1 symb symSpec = Some r" by simp
    from Continue 1(3) have b: "act_loop st1 symb symSpec = Some r"
      by (simp add: act_loop_Continue)
    from 1(1) [OF a b] Continue show ?thesis
      by (blast intro: loop_point_cons)
  qed
qed (rule assms)

lemma act_loop_no_action:
  "loop_point k st symb symSpec = Some st' \<Longrightarrow> no_action st' symSpec \<Longrightarrow>
   act_loop st symb symSpec
     = Some (Raise (UnexpectedToken (''Unexpected token: '' @ repr_symbol (spec st') symb)) st')"
proof -
  assume a: "loop_point k st symb symSpec = Some st'" and b: "no_action st' symSpec"
  from b have "act_iter st' symb symSpec
     = Exit (Raise (UnexpectedToken (''Unexpected token: '' @ repr_symbol (spec st') symb)) st')"
    by (simp add: act_iter_unexpected)
  then show ?thesis
    using act_loop_loop_point [OF a] by (simp add: act_loop_Exit)
qed

lemma print_frame [simp]:
  "stack (print s st) = stack st" "spec (print s st) = spec st"
  "start (print s st) = start st" "verbose (print s st) = verbose st"
  by (simp_all add: print_def)

lemma printStack_frame [simp]:
  "stack (printStack st) = stack st" "spec (printStack st) = spec st"
  "start (printStack st) = start st" "verbose (printStack st) = verbose st"
  by (simp_all add: printStack_def Let_def)

lemma act_chosen_frame [simp]:
  "stack (act_chosen st a) = stack st" "spec (act_chosen st a) = spec st"
  "start (act_chosen st a) = start st" "verbose (act_chosen st a) = verbose st"
  by (simp_all add: act_chosen_def)

lemma act_input_frame [simp]:
  "stack (act_input st symb) = stack st" "spec (act_input st symb) = spec st"
  "start (act_input st symb) = start st" "verbose (act_input st symb) = verbose st"
  by (simp_all add: act_input_def)

lemma token_unexpected_iff:
  "token st tok = Some (Raise (UnexpectedToken m) st') \<longleftrightarrow>
     (\<exists>symSpec k. sym2spec (spec st) (symType tok) = Some symSpec \<and>
        loop_point k (act_input st tok) tok symSpec = Some st' \<and> no_action st' symSpec \<and>
        m = ''Unexpected token: '' @ repr_symbol (spec st') tok)"
proof (cases "sym2spec (spec st) (symType tok)")
  case None
  then show ?thesis by (simp add: token_def)
next
  case (Some symSpec)
  then have t: "token st tok = act_loop (act_input st tok) tok symSpec"
    by (simp add: token_def act_def)
  show ?thesis
  proof
    assume l: "token st tok = Some (Raise (UnexpectedToken m) st')"
    with t act_loop_unexpected_point [of "act_input st tok" tok symSpec "Raise (UnexpectedToken m) st'"]
    obtain k where k: "loop_point k (act_input st tok) tok symSpec = Some st'"
      and n: "no_action st' symSpec"
      by auto
    from act_loop_no_action [OF k n] l t
    have "m = ''Unexpected token: '' @ repr_symbol (spec st') tok" by simp
    with Some k n show "\<exists>symSpec k. sym2spec (spec st) (symType tok) = Some symSpec \<and>
        loop_point k (act_input st tok) tok symSpec = Some st' \<and> no_action st' symSpec \<and>
        m = ''Unexpected token: '' @ repr_symbol (spec st') tok"
      by blast
  next
    assume "\<exists>symSpec k. sym2spec (spec st) (symType tok) = Some symSpec \<and>
        loop_point k (act_input st tok) tok symSpec = Some st' \<and> no_action st' symSpec \<and>
        m = ''Unexpected token: '' @ repr_symbol (spec st') tok"
    with Some obtain k where k: "loop_point k (act_input st tok) tok symSpec = Some st'"
      and n: "no_action st' symSpec"
      and m: "m = ''Unexpected token: '' @ repr_symbol (spec st') tok"
      by auto
    from act_loop_no_action [OF k n] t m
    show "token st tok = Some (Raise (UnexpectedToken m) st')" by simp
  qed
qed

lemma getitem_error: "getitem xs i = Inl e \<Longrightarrow> e = IndexError"
  by (auto simp: getitem_def split: if_splits)

lemma eoi_unexpected_iff:
  "eoi st = Some (Raise (UnexpectedToken m) st') \<longleftrightarrow>
   token st (Symbol EndOfInput None) = Some (Raise (UnexpectedToken m) st')"
proof (cases "token st (Symbol EndOfInput None)")
  case None
  then show ?thesis by (simp add: eoi_def)
next
  case (Some r)
  then show ?thesis
    by (cases r)
       (auto simp: eoi_def Let_def split: sum.splits option.splits if_splits dest: getitem_error)
qed






lemmas engine_defs =
  token_def act_def act_input_def act_loop.simps act_iter_def act_chosen_def lookup_action_def
  reduce_def production_def getitem_def eoi_def Let_def

lemmas expr_defs =
  expr_lr_def expr_spec_def expr_action_def expr_goto_def expr_repr_def
  after_number_def after_T_def after_E_def after_plus_def
  num_def plus_def number_d_def plus_d_def eoi_d_def epsilon_d_def E_d_def T_d_def
  pT_def pE_def pAdd_def reduceT_def reduceE_def reduceAdd_def

lemmas opt_defs =
  opt_lr_def opt_spec_def opt_action_def opt_goto_def expr_repr_def opt_after_bang_def
  bang_def bang_d_def Opt_d_def eoi_d_def epsilon_d_def
  pEmpty_def pBang_def reduceEmpty_def reduceBang_def

lemma token_expr_number: "token expr_lr (num 3) = Some (Return after_number)"
  by (simp add: engine_defs expr_defs)

lemma token_after_number_plus: "token after_number plus = Some (Return after_plus)"
  by (simp add: engine_defs expr_defs)


lemma eoi_after_plus:
  "eoi after_plus = Some (Raise (UnexpectedToken ''Unexpected token: <$>'') after_plus)"
  by (simp add: engine_defs expr_defs)


lemma token_opt_bang_bang:
  "token opt_after_bang bang
     = Some (Raise (UnexpectedToken ''Unexpected token: Bang'') opt_after_Opt)"
  by (simp add: engine_defs opt_defs opt_after_Opt_def)

lemma loop_point_opt:
  "loop_point 1 (act_input opt_after_bang bang) bang bang_d = Some opt_after_Opt"
  by (simp add: engine_defs opt_defs opt_after_Opt_def)

lemma loop_point_Suc_last:
  "loop_point (Suc j) st symb symSpec = Some st' \<Longrightarrow>
   \<exists>stj. loop_point j st symb symSpec = Some stj \<and> act_iter stj symb symSpec = Continue st'"
proof (induction j arbitrary: st)
  case 0
  then show ?case by (auto split: iteration.splits)
next
  case (Suc j)
  from Suc.prems obtain sta where a: "act_iter st symb symSpec = Continue sta"
    and b: "loop_point (Suc j) sta symb symSpec = Some st'"
    by (auto split: iteration.splits)
  from Suc.IH [OF b] obtain stj where "loop_point j sta symb symSpec = Some stj"
    and c: "act_iter stj symb symSpec = Continue st'"
    by blast
  with a have "loop_point (Suc j) st symb symSpec = Some stj" by simp
  with c show ?case by blast
qed

lemma act_iter_Continue:
  "act_iter st symb symSpec = Continue st' \<Longrightarrow>
   \<exists>p r g. lookup_action st symb symSpec = Inr (ReduceAction p) \<and>
           length (rhs p) < length (stack st) \<and>
           stack st' = take (length (stack st) - length (rhs p)) (stack st) @ [(r, g)] \<and>
           spec st' = spec st \<and> start st' = start st \<and> verbose st' = verbose st"
  by (auto simp: act_iter_def Let_def reduce_Return_iff
           split: sum.splits action.splits outcome.splits if_splits)

lemma no_action_Exit:
  "no_action st symSpec \<Longrightarrow> \<exists>r. act_iter st symb symSpec = Exit r"
  using act_iter_unexpected [of st symb symSpec _ st] by blast

lemma loop_point_no_action_unique:
  "loop_point k st symb symSpec = Some a \<Longrightarrow> no_action a symSpec \<Longrightarrow>
   loop_point k' st symb symSpec = Some b \<Longrightarrow> no_action b symSpec \<Longrightarrow>
   k' = k \<and> b = a"
proof (induction k arbitrary: st k')
  case 0
  then have a: "a = st" by simp
  with 0(2) obtain r where "act_iter st symb symSpec = Exit r"
    using no_action_Exit by blast
  with 0(3) a show ?case by (cases k') auto
next
  case (Suc k)
  from Suc.prems(1) obtain st1 where c: "act_iter st symb symSpec = Continue st1"
    and l: "loop_point k st1 symb symSpec = Some a"
    by (auto split: iteration.splits)
  show ?case
  proof (cases k')
    case 0
    with Suc.prems(3) have "b = st" by simp
    with Suc.prems(4) c no_action_Exit [of st symSpec symb] show ?thesis by auto
  next
    case (Suc j)
    with Suc.prems(3) c have "loop_point j st1 symb symSpec = Some b" by simp
    from Suc.IH [OF l Suc.prems(2) this Suc.prems(4)] Suc show ?thesis by simp
  qed
qed


text \<open>
  C5. When \<^verbatim>\<open>token\<close> or \<^verbatim>\<open>eoi\<close> raises \<^verbatim>\<open>UnexpectedToken\<close>, the instance is
  left exactly as it stood at the head of the loop where the lookup of the token's
  descriptor failed, and there is one such head only: with no reduction completed in this
  call the stack is the one the call was entered with, and otherwise it is the stack the
  last completed reduction of this call produced. The reductions of the call persist;
  nothing is rolled back.
\<close>

theorem unexpected_token_no_rollback:
  "token st tok = Some (Raise (UnexpectedToken m) st') \<or>
   tok = Symbol EndOfInput None \<and> eoi st = Some (Raise (UnexpectedToken m) st') \<Longrightarrow>
   \<exists>symSpec k.
      sym2spec (spec st) (symType tok) = Some symSpec \<and>
      loop_point k (act_input st tok) tok symSpec = Some st' \<and>
      no_action st' symSpec \<and>
      (\<forall>k' st''. loop_point k' (act_input st tok) tok symSpec = Some st'' \<and>
                  no_action st'' symSpec \<longrightarrow> k' = k \<and> st'' = st') \<and>
      (k = 0 \<longrightarrow> stack st' = stack st) \<and>
      (\<forall>j. k = Suc j \<longrightarrow>
         (\<exists>stj p r g.
            loop_point j (act_input st tok) tok symSpec = Some stj \<and>
            lookup_action stj tok symSpec = Inr (ReduceAction p) \<and>
            stack st' = take (length (stack stj) - length (rhs p)) (stack stj) @ [(r, g)]))"
proof -
  assume "token st tok = Some (Raise (UnexpectedToken m) st') \<or>
   tok = Symbol EndOfInput None \<and> eoi st = Some (Raise (UnexpectedToken m) st')"
  then have "token st tok = Some (Raise (UnexpectedToken m) st')"
    by (auto simp: eoi_unexpected_iff)
  then obtain symSpec k where s: "sym2spec (spec st) (symType tok) = Some symSpec"
    and k: "loop_point k (act_input st tok) tok symSpec = Some st'"
    and n: "no_action st' symSpec"
    unfolding token_unexpected_iff by blast
  have u: "\<forall>k' st''. loop_point k' (act_input st tok) tok symSpec = Some st'' \<and>
                  no_action st'' symSpec \<longrightarrow> k' = k \<and> st'' = st'"
    using loop_point_no_action_unique [OF k n] by blast
  have z: "k = 0 \<longrightarrow> stack st' = stack st"
    using k by auto
  have "\<forall>j. k = Suc j \<longrightarrow>
         (\<exists>stj p r g.
            loop_point j (act_input st tok) tok symSpec = Some stj \<and>
            lookup_action stj tok symSpec = Inr (ReduceAction p) \<and>
            stack st' = take (length (stack stj) - length (rhs p)) (stack stj) @ [(r, g)])"
  proof (intro allI impI)
    fix j assume "k = Suc j"
    with k loop_point_Suc_last [of j "act_input st tok" tok symSpec st']
    obtain stj where a: "loop_point j (act_input st tok) tok symSpec = Some stj"
      and b: "act_iter stj tok symSpec = Continue st'"
      by blast
    from act_iter_Continue [OF b] a
    show "\<exists>stj p r g.
            loop_point j (act_input st tok) tok symSpec = Some stj \<and>
            lookup_action stj tok symSpec = Inr (ReduceAction p) \<and>
            stack st' = take (length (stack stj) - length (rhs p)) (stack stj) @ [(r, g)]"
      by blast
  qed
  with s k n u z show ?thesis by blast
qed




lemma sym2spec_bang: "sym2spec (spec opt_after_bang) (symType bang) = Some bang_d"
  by (simp add: opt_defs)

lemma entry_not_no_action: "\<not> no_action opt_after_bang bang_d"
  by (simp add: no_action_def opt_defs)

theorem unexpected_token_no_rollback_witness:
  "token opt_after_bang bang
     = Some (Raise (UnexpectedToken ''Unexpected token: Bang'') opt_after_Opt) \<and>
   sym2spec (spec opt_after_bang) (symType bang) = Some bang_d \<and>
   loop_point 1 (act_input opt_after_bang bang) bang bang_d = Some opt_after_Opt \<and>
   no_action opt_after_Opt bang_d \<and>
   \<not> no_action opt_after_bang bang_d \<and>
   stack opt_after_Opt \<noteq> stack opt_after_bang"
proof -
  from unexpected_token_no_rollback [OF disjI1 [OF token_opt_bang_bang]]
  obtain symSpec k where
    s: "sym2spec (spec opt_after_bang) (symType bang) = Some symSpec"
    and n: "no_action opt_after_Opt symSpec"
    by blast
  from s have "symSpec = bang_d" by (simp add: sym2spec_bang)
  with n have "no_action opt_after_Opt bang_d" by simp
  moreover have "stack opt_after_Opt \<noteq> stack opt_after_bang"
    by (simp add: opt_after_Opt_def opt_after_bang_def opt_lr_def)
  ultimately show ?thesis
    using token_opt_bang_bang sym2spec_bang loop_point_opt entry_not_no_action by simp
qed

section \<open>Tracing and reset do not change what a caller sees\<close>

lemma agree_refl [simp]: "agree a a"
  by (simp add: agree_def)

lemma agree_sym: "agree a b \<Longrightarrow> agree b a"
  by (simp add: agree_def)

lemma agree_print [simp]: "agree (print s a) b = agree a b" "agree a (print s b) = agree a b"
  by (simp_all add: agree_def)

lemma agree_printStack [simp]:
  "agree (printStack a) b = agree a b" "agree a (printStack b) = agree a b"
  by (simp_all add: agree_def)

lemma agree_act_input [simp]:
  "agree (act_input a symb) b = agree a b" "agree a (act_input b symb) = agree a b"
  by (simp_all add: agree_def)

lemma agree_outcome_sym: "agree_outcome r r' \<Longrightarrow> agree_outcome r' r"
  by (cases r; cases r') (auto dest: agree_sym)

lemma agree_reduce: "agree a b \<Longrightarrow> agree_outcome (reduce a p) (reduce b p)"
  by (auto simp: reduce_def Let_def agree_def split: sum.splits option.splits prod.splits)

lemma agree_lookup_action:
  "agree a b \<Longrightarrow> lookup_action a symb symSpec = lookup_action b symb symSpec"
  by (auto simp: lookup_action_def agree_def Let_def split: option.splits)

lemma agree_act_chosen [simp]:
  "agree (act_chosen a x) b = agree a b" "agree a (act_chosen b x) = agree a b"
  by (simp_all add: agree_def)

lemma agree_act_iter:
  assumes "agree a b"
  shows "agree_iteration (act_iter a symb symSpec) (act_iter b symb symSpec)"
proof (cases "lookup_action a symb symSpec")
  case (Inl e)
  moreover from Inl have "lookup_action b symb symSpec = Inl e"
    using agree_lookup_action [OF assms, of symb symSpec] by simp
  ultimately show ?thesis using assms
    by (simp add: act_iter_def)
next
  case (Inr act)
  then have lb: "lookup_action b symb symSpec = Inr act"
    using agree_lookup_action [OF assms, of symb symSpec] by simp
  have ab1: "agree (act_chosen a act) (act_chosen b act)" using assms by simp
  show ?thesis
  proof (cases act)
    case (ShiftAction q)
    with Inr lb ab1 show ?thesis
      by (simp add: act_iter_def agree_def)
  next
    case (ReduceAction p)
    from agree_reduce [OF ab1, of p]
    have "agree_iteration
            (case reduce (act_chosen a act) p of Raise e st2 \<Rightarrow> Exit (Raise e st2)
             | Return st2 \<Rightarrow> Continue (if verbose st2 then printStack st2 else st2))
            (case reduce (act_chosen b act) p of Raise e st2 \<Rightarrow> Exit (Raise e st2)
             | Return st2 \<Rightarrow> Continue (if verbose st2 then printStack st2 else st2))"
      by (cases "reduce (act_chosen a act) p"; cases "reduce (act_chosen b act) p") auto
    with Inr lb ReduceAction show ?thesis
      by (simp add: act_iter_def)
  qed
qed

lemma agree_act_loop_Some:
  assumes "act_loop a symb symSpec = Some r"
  shows "\<forall>b. agree a b \<longrightarrow> (\<exists>r'. act_loop b symb symSpec = Some r' \<and> agree_outcome r r')"
  using assms
proof (induction a symb symSpec r rule: act_loop.raw_induct)
  case (1 f a symb symSpec r)
  show ?case
  proof (intro allI impI)
    fix b assume ab: "agree a b"
    note it = agree_act_iter [OF ab, of symb symSpec]
    show "\<exists>r'. act_loop b symb symSpec = Some r' \<and> agree_outcome r r'"
    proof (cases "act_iter a symb symSpec")
      case (Exit x)
      with 1(2) have "x = r" by simp
      with Exit it obtain r' where "act_iter b symb symSpec = Exit r'" "agree_outcome r r'"
        by (cases "act_iter b symb symSpec") auto
      then show ?thesis by (auto simp: act_loop_Exit)
    next
      case (Continue a1)
      with it obtain b1 where b1: "act_iter b symb symSpec = Continue b1" "agree a1 b1"
        by (cases "act_iter b symb symSpec") auto
      from Continue 1(2) have fa: "f a1 symb symSpec = Some r" by simp
      from Continue 1(3) have "act_loop a1 symb symSpec = Some r"
        by (simp add: act_loop_Continue)
      from 1(1) [OF fa this] b1(2)
      obtain r' where "act_loop b1 symb symSpec = Some r'" "agree_outcome r r'" by blast
      with b1(1) show ?thesis by (auto simp: act_loop_Continue)
    qed
  qed
qed (rule assms)

lemma agree_act_loop:
  assumes "agree a b"
  shows "rel_option agree_outcome (act_loop a symb symSpec) (act_loop b symb symSpec)"
proof (cases "act_loop a symb symSpec")
  case None
  show ?thesis
  proof (cases "act_loop b symb symSpec")
    case None
    with \<open>act_loop a symb symSpec = None\<close> show ?thesis by simp
  next
    case (Some r')
    from agree_act_loop_Some [OF Some] agree_sym [OF assms] None
    show ?thesis by auto
  qed
next
  case (Some r)
  from agree_act_loop_Some [OF Some] assms show ?thesis
    using Some by auto
qed

lemma agree_token:
  "agree a b \<Longrightarrow> rel_option agree_outcome (token a tok) (token b tok)"
  using agree_act_loop [of "act_input a tok" "act_input b tok" tok]
  by (auto simp: token_def act_def agree_def split: option.splits)


lemma agree_eoi:
  assumes "agree a b"
  shows "rel_option agree_outcome (eoi a) (eoi b)"
proof -
  note t = agree_token [OF assms, of "Symbol EndOfInput None"]
  show ?thesis
  proof (cases "token a (Symbol EndOfInput None)")
    case None
    with t show ?thesis by (simp add: eoi_def)
  next
    case (Some r)
    with t obtain r' where r': "token b (Symbol EndOfInput None) = Some r'" "agree_outcome r r'"
      by (auto simp: option_rel_Some1)
    show ?thesis
    proof (cases r)
      case (Raise e a1)
      with r' obtain b1 where "r' = Raise e b1" "agree a1 b1" by (cases r') auto
      with Some Raise r' show ?thesis by (simp add: eoi_def)
    next
      case (Return a1)
      with r' obtain b1 where b1: "r' = Return b1" "agree a1 b1" by (cases r') auto
      then have eq: "stack a1 = stack b1" "spec a1 = spec b1" "start a1 = start b1"
        by (simp_all add: agree_def)
      have "agree_outcome
         (if stack a1 = [] then Raise IndexError a1
                   else if fst (last (stack a1)) \<noteq> Symbol EndOfInput None then Raise AssertionError a1
                   else (let st2 = (if verbose a1
                                    then print (''   --> accept'' @ [CHR 0x0A]) (printStack a1)
                                    else a1);
                             st3 = st2\<lparr>stack := butlast (stack st2)\<rparr>
                         in (case getitem (stack st3) 1 of
                               Inl e \<Rightarrow> Raise e st3
                             | Inr node \<Rightarrow>
                                 (let st4 = st3\<lparr>start := Some [fst node]\<rparr>
                                  in (case sym2spec (spec st4) (symType (fst node)) of
                                        None \<Rightarrow> Raise LookupError st4
                                      | Some d \<Rightarrow>
                                          (if d \<noteq> userStartSym (spec st4)
                                           then Raise AssertionError st4
                                           else Return st4))))))
         (if stack b1 = [] then Raise IndexError b1
                   else if fst (last (stack b1)) \<noteq> Symbol EndOfInput None then Raise AssertionError b1
                   else (let st2 = (if verbose b1
                                    then print (''   --> accept'' @ [CHR 0x0A]) (printStack b1)
                                    else b1);
                             st3 = st2\<lparr>stack := butlast (stack st2)\<rparr>
                         in (case getitem (stack st3) 1 of
                               Inl e \<Rightarrow> Raise e st3
                             | Inr node \<Rightarrow>
                                 (let st4 = st3\<lparr>start := Some [fst node]\<rparr>
                                  in (case sym2spec (spec st4) (symType (fst node)) of
                                        None \<Rightarrow> Raise LookupError st4
                                      | Some d \<Rightarrow>
                                          (if d \<noteq> userStartSym (spec st4)
                                           then Raise AssertionError st4
                                           else Return st4))))))"
        using eq by (auto simp: agree_def Let_def split: sum.splits option.splits)
      with Some Return r' b1 show ?thesis by (simp add: eoi_def Let_def)
    qed
  qed
qed

lemma agree_reset: "agree (reset a) (reset b) = (spec a = spec b)"
  by (auto simp: agree_def reset_def)

lemma agree_setVerbose [simp]:
  "agree (setVerbose v a) b = agree a b" "agree a (setVerbose v b) = agree a b"
  by (simp_all add: agree_def setVerbose_def)

lemma agree_do_call:
  "agree a b \<Longrightarrow> rel_option agree_outcome (do_call a c) (do_call b c)"
  by (cases c) (auto simp: do_call_def agree_token agree_eoi agree_def reset_def setVerbose_def)

lemma agree_outcome_after:
  "agree_outcome r r' \<Longrightarrow> agree (after r) (after r') \<and> error_of r = error_of r'"
  by (cases r; cases r') (auto simp: error_of_def)

lemma agree_run: "agree a b \<Longrightarrow> observe (run a cs) = observe (run b cs)"
proof (induction cs arbitrary: a b)
  case Nil
  then show ?case by (simp add: observe_def agree_def)
next
  case (Cons c cs)
  note d = agree_do_call [OF Cons.prems, of c]
  show ?case
  proof (cases "do_call a c")
    case None
    with d show ?thesis by (simp add: observe_def)
  next
    case (Some r)
    with d obtain r' where r': "do_call b c = Some r'" "agree_outcome r r'"
      by (auto simp: option_rel_Some1)
    from agree_outcome_after [OF r'(2)]
    have ag: "agree (after r) (after r')" and er: "error_of r = error_of r'" by simp_all
    from Cons.IH [OF ag] have ih: "observe (run (after r) cs) = observe (run (after r') cs)" .
    show ?thesis
      using ih Some r' er
      by (cases "run (after r) cs"; cases "run (after r') cs")
         (auto simp: observe_def split: prod.splits)
  qed
qed

lemma reduce_frame:
  "spec (after (reduce st p)) = spec st \<and> verbose (after (reduce st p)) = verbose st \<and>
   start (after (reduce st p)) = start st"
  by (auto simp: reduce_def Let_def split: sum.splits option.splits prod.splits)

lemma act_iter_Exit_frame:
  "act_iter st symb symSpec = Exit r \<Longrightarrow>
   spec (after r) = spec st \<and> verbose (after r) = verbose st \<and> start (after r) = start st"
proof (cases "lookup_action st symb symSpec")
  case (Inl e)
  assume "act_iter st symb symSpec = Exit r"
  with Inl show ?thesis by (auto simp: act_iter_def)
next
  case (Inr a)
  assume e: "act_iter st symb symSpec = Exit r"
  show ?thesis
  proof (cases a)
    case (ShiftAction q)
    with Inr e show ?thesis by (auto simp: act_iter_def)
  next
    case (ReduceAction p)
    with Inr e reduce_frame [of "act_chosen st a" p] show ?thesis
      by (cases "reduce (act_chosen st a) p") (auto simp: act_iter_def)
  qed
qed

lemma act_loop_frame:
  assumes "act_loop st symb symSpec = Some r"
  shows "spec (after r) = spec st \<and> verbose (after r) = verbose st \<and> start (after r) = start st"
  using assms
proof (induction st symb symSpec r rule: act_loop.raw_induct)
  case (1 f st symb symSpec r)
  show ?case
  proof (cases "act_iter st symb symSpec")
    case (Exit x)
    with 1(2) have "x = r" by simp
    with Exit show ?thesis by (simp add: act_iter_Exit_frame)
  next
    case (Continue st1)
    with 1(2) have a: "f st1 symb symSpec = Some r" by simp
    from Continue 1(3) have b: "act_loop st1 symb symSpec = Some r"
      by (simp add: act_loop_Continue)
    from 1(1) [OF a b] act_iter_Continue [OF Continue] show ?thesis by auto
  qed
qed (rule assms)

lemma token_frame:
  "token st tok = Some r \<Longrightarrow>
   spec (after r) = spec st \<and> verbose (after r) = verbose st \<and> start (after r) = start st"
  using act_loop_frame [of "act_input st tok" tok _ r]
  by (auto simp: token_def act_def split: option.splits)

lemma eoi_frame:
  "eoi st = Some r \<Longrightarrow> spec (after r) = spec st \<and> verbose (after r) = verbose st"
proof (cases "token st (Symbol EndOfInput None)")
  case None
  assume "eoi st = Some r"
  with None show ?thesis by (simp add: eoi_def)
next
  case (Some r1)
  assume "eoi st = Some r"
  with Some token_frame [OF Some] show ?thesis
    by (cases r1) (auto simp: eoi_def Let_def split: sum.splits option.splits if_splits)
qed

lemma do_call_spec: "do_call st c = Some r \<Longrightarrow> spec (after r) = spec st"
  by (cases c) (auto simp: do_call_def reset_def setVerbose_def dest: token_frame eoi_frame)

lemma run_spec: "run st cs = Some (errs, st') \<Longrightarrow> spec st' = spec st"
proof (induction cs arbitrary: st errs)
  case Nil
  then show ?case by simp
next
  case (Cons c cs)
  then show ?case
    by (auto split: option.splits prod.splits dest!: do_call_spec)
qed

lemma init_agree_reset: "init exact (spec st) = Inr st0 \<Longrightarrow> agree (reset st) st0"
  by (auto simp: init_def agree_def reset_def split: if_splits)

text \<open>
  C7. Tracing only observes. Two runs of the same calls on instances that differ only in
  the verbose flag raise the same errors call by call and end with the same stack and the
  same parse result; and a freshly constructed engine has the flag off.
\<close>

theorem verbose_unobservable:
  "observe (run (setVerbose True st) cs) = observe (run (setVerbose False st) cs) \<and>
   (\<forall>exact s st0. init exact s = Inr st0 \<longrightarrow> \<not> verbose st0)"
proof
  have "agree (setVerbose True st) (setVerbose False st)" by simp
  then show "observe (run (setVerbose True st) cs) = observe (run (setVerbose False st) cs)"
    by (rule agree_run)
  show "\<forall>exact s st0. init exact s = Inr st0 \<longrightarrow> \<not> verbose st0"
    by (auto simp: init_def split: if_splits)
qed

text \<open>
  C6. After any sequence of calls on a constructed engine (tokens, end of input, toggling
  of the verbose flag, resets; in the middle of a parse or after an error), \<^verbatim>\<open>reset()\<close>
  leaves the result none and the stack with the single entry of the bottom sentinel in
  state 0, as a freshly constructed instance has them, and every further sequence of calls
  gives the same errors, stack and result as on the fresh instance.
\<close>

theorem reset_like_fresh:
  "init exact s = Inr st0 \<Longrightarrow> run st0 ops = Some (errs, st) \<Longrightarrow>
     start (reset st) = None \<and>
     stack (reset st) = [(Symbol Epsilon None, 0)] \<and>
     stack (reset st) = stack st0 \<and> start (reset st) = start st0 \<and>
     (\<forall>cs. observe (run (reset st) cs) = observe (run st0 cs))"
proof -
  assume i: "init exact s = Inr st0" and r: "run st0 ops = Some (errs, st)"
  from i have "spec st0 = s" by (auto simp: init_def reset_def split: if_splits)
  with run_spec [OF r] i have "init exact (spec st) = Inr st0" by simp
  then have ag: "agree (reset st) st0" by (rule init_agree_reset)
  then have "\<forall>cs. observe (run (reset st) cs) = observe (run st0 cs)"
    by (simp add: agree_run)
  with ag show ?thesis by (simp add: agree_def reset_def)
qed

lemma setVerbose_expr: "setVerbose False expr_lr = expr_lr"
  by (simp add: setVerbose_def expr_lr_def)

lemma run_expr_bad:
  "observe (run expr_lr [Token (num 3), Token plus, Eoi])
     = Some ([None, None, Some (UnexpectedToken ''Unexpected token: <$>'')],
             [(Symbol Epsilon None, 0), (Symbol (Class ''E'') (Some 3), 1), (plus, 5)], None)"
  by (simp add: do_call_def observe_def error_of_def token_expr_number token_after_number_plus
      eoi_after_plus)
     (simp add: after_plus_def expr_lr_def)

theorem verbose_unobservable_witness:
  "observe (run (setVerbose True expr_lr) [Token (num 3), Token plus, Eoi])
     = Some ([None, None, Some (UnexpectedToken ''Unexpected token: <$>'')],
             [(Symbol Epsilon None, 0), (Symbol (Class ''E'') (Some 3), 1), (plus, 5)], None) \<and>
   init True expr_spec = Inr expr_lr \<and> \<not> verbose expr_lr"
  using verbose_unobservable [of expr_lr "[Token (num 3), Token plus, Eoi]"]
    run_expr_bad init_expr
  by (auto simp: setVerbose_expr)

lemma setVerbose_after_number: "setVerbose False after_number = after_number"
  by (simp add: setVerbose_def after_number_def expr_lr_def)

lemma run_expr_ops:
  "run expr_lr [Token (num 3), SetVerbose False, Token plus, Eoi]
     = Some ([None, None, None, Some (UnexpectedToken ''Unexpected token: <$>'')], after_plus)"
  by (simp add: do_call_def error_of_def token_expr_number token_after_number_plus
      eoi_after_plus setVerbose_after_number)

lemma reset_after_plus: "reset after_plus = expr_lr"
  by (simp add: reset_def after_plus_def expr_lr_def)

theorem reset_like_fresh_witness:
  "init True expr_spec = Inr expr_lr \<and>
   run expr_lr [Token (num 3), SetVerbose False, Token plus, Eoi]
     = Some ([None, None, None, Some (UnexpectedToken ''Unexpected token: <$>'')], after_plus) \<and>
   stack (reset after_plus) = [(Symbol Epsilon None, 0)] \<and>
   start (reset after_plus) = None \<and>
   observe (run (reset after_plus) [Token (num 3), Token plus, Eoi])
     = observe (run expr_lr [Token (num 3), Token plus, Eoi])"
  using reset_like_fresh [OF init_expr run_expr_ops] init_expr run_expr_ops
  by blast

section \<open>The stack invariant\<close>

lemma stack_inv_frame [simp]:
  "stack_inv (print s st) = stack_inv st" "stack_inv (printStack st) = stack_inv st"
  "stack_inv (act_input st symb) = stack_inv st" "stack_inv (act_chosen st a) = stack_inv st"
  by (simp_all add: stack_inv_def)

lemma stack_inv_take:
  "stack_inv st \<Longrightarrow> k < length (stack st) \<Longrightarrow>
   stack_inv (st\<lparr>stack := take (length (stack st) - k) (stack st)\<rparr>) \<and>
   stack_inv (st\<lparr>stack := take (length (stack st) - k) (stack st) @ [x]\<rparr>)"
  by (auto simp: stack_inv_def nth_append)

lemma reduce_inv:
  assumes "stack_inv st" and "length (rhs p) < length (stack st)"
  shows "stack_inv (after (reduce st p))"
proof -
  from assms(2) have le: "length (rhs p) \<le> length (stack st)" by simp
  note t = stack_inv_take [OF assms]
  from assms(2) have ne: "take (length (stack st) - length (rhs p)) (stack st) \<noteq> []" by auto
  show ?thesis
    using assms(1) t ne le
    by (auto simp: reduce_def Let_def collect_rhs_top pop_n_eq split: sum.splits option.splits)
qed

lemma act_iter_inv:
  assumes "stack_inv st"
    and "\<And>p. lookup_action st symb symSpec = Inr (ReduceAction p) \<Longrightarrow>
             length (rhs p) < length (stack st)"
  shows "case act_iter st symb symSpec of
           Exit (Raise e st') \<Rightarrow> stack_inv st'
         | Exit (Return st') \<Rightarrow>
             (\<exists>stk q. stack st' = stk @ [(symb, q)] \<and> stack_inv (st'\<lparr>stack := stk\<rparr>))
         | Continue st' \<Rightarrow> stack_inv st'"
proof (cases "lookup_action st symb symSpec")
  case (Inl e)
  with assms(1) show ?thesis by (simp add: act_iter_def)
next
  case (Inr a)
  show ?thesis
  proof (cases a)
    case (ShiftAction q)
    with Inr assms(1) show ?thesis
      by (auto simp: act_iter_def Let_def stack_inv_def)
  next
    case (ReduceAction p)
    with Inr assms(2) have "length (rhs p) < length (stack (act_chosen st a))" by simp
    with assms(1) have "stack_inv (after (reduce (act_chosen st a) p))"
      by (intro reduce_inv) simp_all
    then show ?thesis using Inr ReduceAction
      by (cases "reduce (act_chosen st a) p") (auto simp: act_iter_def Let_def)
  qed
qed

lemma rhs_fit_here:
  "rhs_fit st symb symSpec \<Longrightarrow> lookup_action st symb symSpec = Inr (ReduceAction p) \<Longrightarrow>
   length (rhs p) < length (stack st)"
  unfolding rhs_fit_def using loop_point.simps(1) [of st symb symSpec] by blast

lemma rhs_fit_Continue:
  "rhs_fit st symb symSpec \<Longrightarrow> act_iter st symb symSpec = Continue st' \<Longrightarrow>
   rhs_fit st' symb symSpec"
  unfolding rhs_fit_def
proof (intro allI impI)
  fix k st'' p
  assume a: "\<forall>k st' p. loop_point k st symb symSpec = Some st' \<longrightarrow>
        lookup_action st' symb symSpec = Inr (ReduceAction p) \<longrightarrow>
        length (rhs p) < length (stack st')"
    and c: "act_iter st symb symSpec = Continue st'"
    and l: "loop_point k st' symb symSpec = Some st''"
    and r: "lookup_action st'' symb symSpec = Inr (ReduceAction p)"
  from c l have "loop_point (Suc k) st symb symSpec = Some st''" by simp
  with a r show "length (rhs p) < length (stack st'')" by blast
qed

lemma act_loop_inv:
  assumes "act_loop st symb symSpec = Some r"
  shows "stack_inv st \<longrightarrow> rhs_fit st symb symSpec \<longrightarrow>
         (case r of
            Raise e st' \<Rightarrow> stack_inv st'
          | Return st' \<Rightarrow>
              (\<exists>stk q. stack st' = stk @ [(symb, q)] \<and> stack_inv (st'\<lparr>stack := stk\<rparr>)))"
  using assms
proof (induction st symb symSpec r rule: act_loop.raw_induct)
  case (1 f st symb symSpec r)
  show ?case
  proof (intro impI)
    assume inv: "stack_inv st" and fit: "rhs_fit st symb symSpec"
    note it = act_iter_inv [of st symb symSpec, OF inv rhs_fit_here [OF fit]]
    show "case r of
            Raise e st' \<Rightarrow> stack_inv st'
          | Return st' \<Rightarrow>
              (\<exists>stk q. stack st' = stk @ [(symb, q)] \<and> stack_inv (st'\<lparr>stack := stk\<rparr>))"
    proof (cases "act_iter st symb symSpec")
      case (Exit x)
      with 1(2) have "x = r" by simp
      with Exit it show ?thesis by simp
    next
      case (Continue st1)
      with 1(2) have a: "f st1 symb symSpec = Some r" by simp
      from Continue 1(3) have b: "act_loop st1 symb symSpec = Some r"
        by (simp add: act_loop_Continue)
      from Continue it have "stack_inv st1" by simp
      with 1(1) [OF a b] rhs_fit_Continue [OF fit Continue] show ?thesis by simp
    qed
  qed
qed (rule assms)


lemma token_inv:
  assumes "token st tok = Some r" and "stack_inv st"
    and "\<And>symSpec. sym2spec (spec st) (symType tok) = Some symSpec \<Longrightarrow>
           rhs_fit (act_input st tok) tok symSpec"
  shows "case r of
            Raise e st' \<Rightarrow> stack_inv st'
          | Return st' \<Rightarrow>
              (\<exists>stk q. stack st' = stk @ [(tok, q)] \<and> stack_inv (st'\<lparr>stack := stk\<rparr>))"
proof (cases "sym2spec (spec st) (symType tok)")
  case None
  with assms(1,2) show ?thesis by (auto simp: token_def)
next
  case (Some symSpec)
  with assms(1) have "act_loop (act_input st tok) tok symSpec = Some r"
    by (simp add: token_def act_def)
  from act_loop_inv [OF this] assms(2) assms(3) [OF Some] show ?thesis by simp
qed

lemma stack_inv_snoc:
  "stack_inv (st\<lparr>stack := stk\<rparr>) \<Longrightarrow> stack st = stk @ [x] \<Longrightarrow> stack_inv st"
  by (auto simp: stack_inv_def nth_append)

lemma eoi_inv:
  assumes "eoi st = Some r" and "stack_inv st"
    and "\<And>symSpec. sym2spec (spec st) EndOfInput = Some symSpec \<Longrightarrow>
           rhs_fit (act_input st (Symbol EndOfInput None)) (Symbol EndOfInput None) symSpec"
  shows "stack_inv (after r)"
proof (cases "token st (Symbol EndOfInput None)")
  case None
  with assms(1) show ?thesis by (simp add: eoi_def)
next
  case (Some r1)
  from token_inv [OF Some assms(2)] assms(3)
  have t: "case r1 of
            Raise e st' \<Rightarrow> stack_inv st'
          | Return st' \<Rightarrow>
              (\<exists>stk q. stack st' = stk @ [(Symbol EndOfInput None, q)] \<and>
                 stack_inv (st'\<lparr>stack := stk\<rparr>))"
    by simp
  show ?thesis
  proof (cases r1)
    case (Raise e st1)
    with Some assms(1) t show ?thesis by (auto simp: eoi_def)
  next
    case (Return st1)
    with t obtain stk q where s: "stack st1 = stk @ [(Symbol EndOfInput None, q)]"
      and i: "stack_inv (st1\<lparr>stack := stk\<rparr>)" by auto
    from i s have i1: "stack_inv st1" by (rule stack_inv_snoc)
    from i have i2: "stk \<noteq> []" "stk ! 0 = (Symbol Epsilon None, 0)"
      by (simp_all add: stack_inv_def)
    from Some Return assms(1) s i1 i2 show ?thesis
      by (auto simp: eoi_def Let_def stack_inv_def split: sum.splits option.splits if_splits)
  qed
qed

lemma lookup_action_top:
  "spec st = spec st' \<Longrightarrow> stack st \<noteq> [] \<Longrightarrow> stack st' \<noteq> [] \<Longrightarrow>
   snd (last (stack st)) = snd (last (stack st')) \<Longrightarrow>
   lookup_action st symb symSpec = lookup_action st' symb symSpec"
  by (auto simp: lookup_action_def Let_def split: option.splits)

text \<open>
  C9. The stack invariant. After construction and after \<^verbatim>\<open>reset()\<close> the stack is not
  empty and its slot 0 holds the bottom sentinel with state 0; and a call of \<^verbatim>\<open>token\<close>
  or \<^verbatim>\<open>eoi\<close> that returns or raises leaves it so, if it found it so and none of the
  reductions it undertakes has a right-hand side longer than the stack is deep above the
  bottom entry. The state the decision loop consults is the state of the entry on top:
  two instances on one specification whose top entries hold the same state look up the
  same action.
\<close>

theorem stack_invariant:
  "(\<forall>exact s st0. init exact s = Inr st0 \<longrightarrow> stack_inv st0) \<and>
   stack_inv (reset st) \<and>
   (stack_inv st \<and> token st tok = Some r \<and>
    (\<forall>symSpec. sym2spec (spec st) (symType tok) = Some symSpec \<longrightarrow>
       rhs_fit (act_input st tok) tok symSpec)
    \<longrightarrow> stack_inv (after r)) \<and>
   (stack_inv st \<and> eoi st = Some r \<and>
    (\<forall>symSpec. sym2spec (spec st) EndOfInput = Some symSpec \<longrightarrow>
       rhs_fit (act_input st (Symbol EndOfInput None)) (Symbol EndOfInput None) symSpec)
    \<longrightarrow> stack_inv (after r)) \<and>
   (\<forall>st'. spec st = spec st' \<and> stack st \<noteq> [] \<and> stack st' \<noteq> [] \<and>
      snd (last (stack st)) = snd (last (stack st'))
      \<longrightarrow> lookup_action st symb symSpec = lookup_action st' symb symSpec)"
proof (intro conjI)
  show "\<forall>exact s st0. init exact s = Inr st0 \<longrightarrow> stack_inv st0"
    by (auto simp: init_def reset_def stack_inv_def split: if_splits)
  show "stack_inv (reset st)"
    by (simp add: reset_def stack_inv_def)
  show "stack_inv st \<and> token st tok = Some r \<and>
    (\<forall>symSpec. sym2spec (spec st) (symType tok) = Some symSpec \<longrightarrow>
       rhs_fit (act_input st tok) tok symSpec)
    \<longrightarrow> stack_inv (after r)"
  proof (intro impI, elim conjE)
    assume a: "stack_inv st" "token st tok = Some r"
      and b: "\<forall>symSpec. sym2spec (spec st) (symType tok) = Some symSpec \<longrightarrow>
       rhs_fit (act_input st tok) tok symSpec"
    from token_inv [OF a(2) a(1)] b show "stack_inv (after r)"
      by (cases r) (auto intro: stack_inv_snoc)
  qed
  show "stack_inv st \<and> eoi st = Some r \<and>
    (\<forall>symSpec. sym2spec (spec st) EndOfInput = Some symSpec \<longrightarrow>
       rhs_fit (act_input st (Symbol EndOfInput None)) (Symbol EndOfInput None) symSpec)
    \<longrightarrow> stack_inv (after r)"
    using eoi_inv [of st r] by blast
  show "\<forall>st'. spec st = spec st' \<and> stack st \<noteq> [] \<and> stack st' \<noteq> [] \<and>
      snd (last (stack st)) = snd (last (stack st'))
      \<longrightarrow> lookup_action st symb symSpec = lookup_action st' symb symSpec"
    using lookup_action_top [of st _ symb symSpec] by blast
qed

lemma act_input_after_number: "act_input after_number plus = after_number"
  by (simp add: act_input_def after_number_def expr_lr_def)

lemma act_iter_after_number: "act_iter after_number plus plus_d = Continue after_T"
  by (simp add: engine_defs expr_defs)

lemma act_iter_after_T: "act_iter after_T plus plus_d = Continue after_E"
  by (simp add: engine_defs expr_defs)

lemma act_iter_after_E: "act_iter after_E plus plus_d = Exit (Return after_plus)"
  by (simp add: engine_defs expr_defs)

lemma lookup_after_number: "lookup_action after_number plus plus_d = Inr (ReduceAction pT)"
  by (simp add: lookup_action_def expr_defs)

lemma lookup_after_T: "lookup_action after_T plus plus_d = Inr (ReduceAction pE)"
  by (simp add: lookup_action_def expr_defs)

lemma lookup_after_E: "lookup_action after_E plus plus_d = Inr (ShiftAction 5)"
  by (simp add: lookup_action_def expr_defs)

lemma rhs_fit_after_number: "rhs_fit (act_input after_number plus) plus plus_d"
  unfolding rhs_fit_def act_input_after_number
proof (intro allI impI)
  fix k st' p
  assume l: "loop_point k after_number plus plus_d = Some st'"
    and a: "lookup_action st' plus plus_d = Inr (ReduceAction p)"
  show "length (rhs p) < length (stack st')"
  proof (cases k)
    case 0
    with l have "st' = after_number" by simp
    with a have "p = pT" by (simp add: lookup_after_number)
    with \<open>st' = after_number\<close> show ?thesis by (simp add: pT_def after_number_def)
  next
    case (Suc k1)
    with l have l1: "loop_point k1 after_T plus plus_d = Some st'"
      by (simp add: act_iter_after_number)
    show ?thesis
    proof (cases k1)
      case 0
      with l1 have "st' = after_T" by simp
      with a have "p = pE" by (simp add: lookup_after_T)
      with \<open>st' = after_T\<close> show ?thesis by (simp add: pE_def after_T_def)
    next
      case (Suc k2)
      with l1 have l2: "loop_point k2 after_E plus plus_d = Some st'"
        by (simp add: act_iter_after_T)
      show ?thesis
      proof (cases k2)
        case 0
        with l2 have "st' = after_E" by simp
        with a show ?thesis by (simp add: lookup_after_E)
      next
        case (Suc k3)
        with l2 show ?thesis by (simp add: act_iter_after_E)
      qed
    qed
  qed
qed

lemma stack_inv_after_number: "stack_inv after_number"
  by (simp add: stack_inv_def after_number_def)

lemma sym2spec_plus: "sym2spec (spec after_number) (symType plus) = Some plus_d"
  by (simp add: expr_defs)

theorem stack_invariant_witness:
  "stack_inv after_number \<and>
   token after_number plus = Some (Return after_plus) \<and>
   rhs_fit (act_input after_number plus) plus plus_d \<and>
   stack_inv after_plus \<and>
   init True expr_spec = Inr expr_lr \<and> stack_inv expr_lr"
  using stack_invariant [of after_number plus "Return after_plus" plus plus_d]
    stack_inv_after_number token_after_number_plus rhs_fit_after_number sym2spec_plus init_expr
  by auto

section \<open>The engine runs the table automaton\<close>


































end
